theory Spec2Isabelle
  imports Main "HOL-Library.Word"
begin

unbundle bit_operations_syntax

section \<open>Data model of ComputationNode.h\<close>

text \<open>
  The ways a member function of the header stops early: \<open>RuntimeError(...)\<close>,
  \<open>LogicError(...)\<close> and \<open>InvalidArgument(...)\<close> throw; dereferencing a null
  \<open>shared_ptr\<close> has no defined behaviour and is reported as \<open>NullDereference\<close>;
  a failing \<open>assert\<close> is \<open>AssertionFailed\<close>; a signed subtraction whose result does
  not fit its type has no defined behaviour either and is \<open>SignedOverflow\<close>.
\<close>

datatype error =
  RuntimeError | LogicError | InvalidArgument | NullDereference | AssertionFailed | SignedOverflow

text \<open>
  Objects live in a heap and are named by their index. A \<open>shared_ptr\<close> is \<open>None\<close>
  (\<open>nullptr\<close>) or \<open>Some\<close> index.
\<close>

type_synonym ComputationNodeBasePtr = "nat option"
type_synonym MatrixPtr = "nat option"

text \<open>The template parameter of \<open>ComputationNode<ElemType>\<close>.\<close>

datatype ElemType = Float | Double

text \<open>
  Modelled from the spec: \<open>TensorShape.h\<close> is not part of the sources. A tensor shape
  is the ordered sequence of per-axis extents of one sample.
\<close>

type_synonym TensorShape = "nat list"


definition GetNumElements :: "TensorShape \<Rightarrow> nat" where
  "GetNumElements shape = (if shape = [] then 0 else prod_list shape)"

text \<open>
  Modelled from the spec: \<open>Sequences.h\<close> is not part of the sources. A minibatch
  layout has a time-step count and a parallel-sequence count; its columns are the
  (time step, parallel sequence) pairs.
\<close>

record MBLayout =
  numTimeSteps :: nat
  numParallelSequences :: nat

definition GetNumCols :: "MBLayout \<Rightarrow> nat" where
  "GetNumCols L = numTimeSteps L * numParallelSequences L"

text \<open>
  Modelled from the spec: \<open>FrameRange\<close> (\<open>Sequences.h\<close>) selects the whole
  minibatch or a single time step, optionally restricted to one sequence.
\<close>

datatype FrameRange = WholeBatch | TimeStep nat "nat option"


text \<open>
  Modelled from the spec: \<open>Matrix.h\<close> is not part of the sources. The backend offers
  resize-to(rows, cols), a sparse/dense format query and elementwise value set/get.
  \<open>Resize\<close> fixes the dimensions only; every use below overwrites the cells
  after resizing.
\<close>

datatype MatrixType = DENSE | SPARSE

record 'e Matrix =
  numRows :: nat
  numCols :: nat
  matrixType :: MatrixType
  cells :: "nat \<Rightarrow> nat \<Rightarrow> 'e"



definition GetMatrixType :: "'e Matrix \<Rightarrow> MatrixType" where
  "GetMatrixType m = matrixType m"

text \<open>
  Modelled from the spec: \<open>MatrixPool.h\<close> is not part of the sources. The pool keeps
  the buffers released to it, in the order of their release.
\<close>

type_synonym MatrixPool = "nat list"

definition Release :: "MatrixPool \<Rightarrow> nat \<Rightarrow> MatrixPool" where
  "Release matrixPool p = matrixPool @ [p]"

text \<open>
  The members of \<open>ComputationNodeBase\<close>, of its bases
  \<open>ComputationNetworkOwnedNodeState\<close> and \<open>TimeStamp\<close>, and of
  \<open>ComputationNode<ElemType>\<close>. (The members that only \<open>FormRecurrentLoops\<close> uses
  are left out.) The last four fields stand for the dynamic type of the object:
  what the virtual \<open>OperationName()\<close> and \<open>RequiresPreCompute()\<close> return, the
  element type of the \<open>ComputationNode<ElemType>\<close> it derives from, and \<open>N\<close> when
  it also derives from \<open>NumInputs<N>\<close>. (\<open>FlowControlNode\<close> objects, which derive
  from \<open>ComputationNodeBase\<close> directly and implement none of the functions below,
  are not part of the model.)
  \<open>int64_t m_evalTimeStamp\<close> is a 64-bit word, read as signed by \<open>sint\<close>. The
  layout behind \<open>m_pMBLayout\<close> is held by value: no function below writes to it.
  Sizes (\<open>size_t\<close>) are natural numbers: the functions below compare and divide
  them, and no claim depends on their overflow.
\<close>

record node =
  m_needsGradient :: bool
  m_valueSharable :: bool
  m_isPartOfLoop :: bool
  m_evalTimeStamp :: "64 word"
  m_deviceId :: int
  m_nodeName :: string
  m_inputs :: "ComputationNodeBasePtr list"
  m_sampleLayout :: TensorShape
  m_pMBLayout :: "MBLayout option"
  m_parameterUpdateRequired :: bool
  m_gradientInitialized :: bool
  m_outputNeededDuringBackprop :: bool
  m_value :: MatrixPtr
  m_gradient :: MatrixPtr
  OperationName :: string
  RequiresPreCompute :: bool
  elemType :: ElemType
  expectedNumInputs :: "nat option"

text \<open>
  The program state: the node objects (indices below \<open>numNodes\<close> are allocated), the
  matrix objects, the globals \<open>g_shareNodeValueMatrices\<close> and
  \<open>TimeStamp::s_timeStampCounter\<close>, and the sequence of \<open>BackpropTo(inputIndex, fr)\<close>
  calls made so far as (node, inputIndex, fr). \<open>BackpropTo\<close> is pure virtual; the
  arithmetic of the operators is outside this header.
\<close>

record 'e state =
  nodes :: "nat \<Rightarrow> node"
  numNodes :: nat
  matrices :: "nat \<Rightarrow> 'e Matrix"
  g_shareNodeValueMatrices :: bool
  s_timeStampCounter :: "64 word"
  backpropToCalls :: "(nat \<times> nat \<times> FrameRange) list"

text \<open>
  A method that throws leaves the state as mutated so far: \<open>Inl (e, s)\<close> is error
  \<open>e\<close> raised in state \<open>s\<close>, \<open>Inr s\<close> is normal return.
\<close>

type_synonym 'e outcome = "(error \<times> 'e state) + 'e state"

section \<open>Accessors\<close>


definition isValueSharable :: "node \<Rightarrow> bool" where
  "isValueSharable n = m_valueSharable n"

definition GetEvalTimeStamp :: "node \<Rightarrow> 64 word" where
  "GetEvalTimeStamp n = m_evalTimeStamp n"

definition NodeName :: "node \<Rightarrow> string" where
  "NodeName n = m_nodeName n"

definition GetNumInputs :: "node \<Rightarrow> nat" where
  "GetNumInputs n = length (m_inputs n)"

definition IsLeaf :: "node \<Rightarrow> bool" where
  "IsLeaf n = (GetNumInputs n = 0)"

definition HasMBLayout :: "node \<Rightarrow> bool" where
  "HasMBLayout n = (m_pMBLayout n \<noteq> None)"


definition GetSampleMatrixNumRows :: "node \<Rightarrow> nat" where
  "GetSampleMatrixNumRows n = GetNumElements (m_sampleLayout n)"

definition GetSampleMatrixNumCols :: "node \<Rightarrow> nat" where
  "GetSampleMatrixNumCols n =
     (case m_pMBLayout n of Some L \<Rightarrow> GetNumCols L | None \<Rightarrow> 1)"

definition SetOutputNeededDuringBackprop :: "node \<Rightarrow> bool \<Rightarrow> node" where
  "SetOutputNeededDuringBackprop n f = n\<lparr>m_outputNeededDuringBackprop := f\<rparr>"

definition IsOutputNeededDuringBackprop :: "'e state \<Rightarrow> node \<Rightarrow> bool" where
  "IsOutputNeededDuringBackprop s n =
     (\<not> g_shareNodeValueMatrices s \<or> m_outputNeededDuringBackprop n)"

section \<open>ReducesInTimeWrt\<close>

definition ReducesInTimeWrt :: "'e state \<Rightarrow> nat \<Rightarrow> ComputationNodeBasePtr \<Rightarrow> error + bool" where
  "ReducesInTimeWrt s this other =
     (case other of
        None \<Rightarrow> Inl NullDereference
      | Some b \<Rightarrow> Inr (GetSampleMatrixNumCols (nodes s this) < GetSampleMatrixNumCols (nodes s b)))"

text \<open>
  The effective column count in the words of the spec: the layout's column count for a
  node that carries a layout, 1 for a node that does not.
\<close>

definition effectiveNumCols :: "node \<Rightarrow> nat" where
  "effectiveNumCols n = (if HasMBLayout n then GetNumCols (the (m_pMBLayout n)) else 1)"

section \<open>Time stamps\<close>

text \<open>
  \<open>GetEvalTimeStamp() - other.GetEvalTimeStamp() <= 0\<close> on \<open>int64_t\<close>. The test is
  on the sign of the difference. A difference that does not fit into 64 bits is a signed
  overflow: the source gives it no meaning (a build may wrap it around or compare the
  operands instead), and the model reports it.
\<close>

definition IsOlderThan :: "node \<Rightarrow> node \<Rightarrow> error + bool" where
  "IsOlderThan this other =
     (let d = sint (GetEvalTimeStamp this) - sint (GetEvalTimeStamp other)
      in if d < - (2 ^ 63) \<or> 2 ^ 63 \<le> d then Inl SignedOverflow else Inr (d \<le> 0))"

fun IsOutputOlderThanInputs_loop :: "'e state \<Rightarrow> node \<Rightarrow> ComputationNodeBasePtr list \<Rightarrow> error + bool" where
  "IsOutputOlderThanInputs_loop s this [] = Inr False"
| "IsOutputOlderThanInputs_loop s this (None # rest) = Inl NullDereference"
| "IsOutputOlderThanInputs_loop s this (Some c # rest) =
     (case IsOlderThan this (nodes s c) of
        Inl e \<Rightarrow> Inl e
      | Inr older \<Rightarrow>
          if older then Inr True
          else IsOutputOlderThanInputs_loop s this rest)"

definition IsOutputOlderThanInputs :: "'e state \<Rightarrow> nat \<Rightarrow> error + bool" where
  "IsOutputOlderThanInputs s this =
     IsOutputOlderThanInputs_loop s (nodes s this) (m_inputs (nodes s this))"

section \<open>Validate\<close>

fun Validate_nullCheck :: "ComputationNodeBasePtr list \<Rightarrow> error + unit" where
  "Validate_nullCheck [] = Inr ()"
| "Validate_nullCheck (None # rest) = Inl RuntimeError"
| "Validate_nullCheck (Some c # rest) = Validate_nullCheck rest"

fun Validate_emptyCheck :: "'e state \<Rightarrow> ComputationNodeBasePtr list \<Rightarrow> error + unit" where
  "Validate_emptyCheck s [] = Inr ()"
| "Validate_emptyCheck s (None # rest) = Inl NullDereference"
| "Validate_emptyCheck s (Some c # rest) =
     (if GetSampleMatrixNumRows (nodes s c) = 0 then Inl RuntimeError
      else Validate_emptyCheck s rest)"

definition Validate :: "'e state \<Rightarrow> nat \<Rightarrow> bool \<Rightarrow> 'e outcome" where
  "Validate s this isFinalValidationPass =
     (case Validate_nullCheck (m_inputs (nodes s this)) of
        Inl e \<Rightarrow> Inl (e, s)
      | Inr u \<Rightarrow>
          if isFinalValidationPass then
            (case Validate_emptyCheck s (m_inputs (nodes s this)) of
               Inl e \<Rightarrow> Inl (e, s)
             | Inr u \<Rightarrow> Inr s)
          else Inr s)"


section \<open>Inputs\<close>

definition modify_node :: "'e state \<Rightarrow> nat \<Rightarrow> (node \<Rightarrow> node) \<Rightarrow> 'e state" where
  "modify_node s p f = s\<lparr>nodes := (nodes s)(p := f (nodes s p))\<rparr>"

definition modify_matrix :: "'e state \<Rightarrow> nat \<Rightarrow> ('e Matrix \<Rightarrow> 'e Matrix) \<Rightarrow> 'e state" where
  "modify_matrix s p f = s\<lparr>matrices := (matrices s)(p := f (matrices s p))\<rparr>"

text \<open>
  \<open>UpCast\<close> of \<open>ComputationNode<ElemType>\<close>: \<open>dynamic_pointer_cast\<close> gives null for
  a null pointer and for a node of another element type, and then \<open>InvalidArgument\<close>
  is thrown.
\<close>

definition UpCast :: "'e state \<Rightarrow> ElemType \<Rightarrow> ComputationNodeBasePtr \<Rightarrow> error + nat" where
  "UpCast s E inode =
     (case inode of
        None \<Rightarrow> Inl InvalidArgument
      | Some c \<Rightarrow> if elemType (nodes s c) = E then Inr c else Inl InvalidArgument)"


text \<open>\<open>std::vector::resize\<close>: keep the first \<open>n\<close> entries, pad with null pointers.\<close>

definition resize_inputs :: "ComputationNodeBasePtr list \<Rightarrow> nat \<Rightarrow> ComputationNodeBasePtr list" where
  "resize_inputs xs n = take n xs @ replicate (n - length xs) None"

function AttachInputs_loop :: "'e state \<Rightarrow> nat \<Rightarrow> ComputationNodeBasePtr list \<Rightarrow> nat \<Rightarrow> 'e outcome" where
  "AttachInputs_loop s this inputs i =
     (if i < length (m_inputs (nodes s this)) then
        (case inputs ! i of
           Some c \<Rightarrow>
             (case UpCast s (elemType (nodes s this)) (Some c) of
                Inl e \<Rightarrow> Inl (e, s)
              | Inr c' \<Rightarrow>
                  AttachInputs_loop
                    (modify_node s this (\<lambda>n. n\<lparr>m_inputs := (m_inputs n)[i := Some c']\<rparr>))
                    this inputs (Suc i))
         | None \<Rightarrow>
             AttachInputs_loop
               (modify_node s this (\<lambda>n. n\<lparr>m_inputs := (m_inputs n)[i := None]\<rparr>))
               this inputs (Suc i))
      else Inr s)"
  by pat_completeness auto
termination
  by (relation "measure (\<lambda>(s, this, inputs, i). length (m_inputs (nodes s this)) - i)")
     (auto simp: modify_node_def)

definition AttachInputs :: "'e state \<Rightarrow> nat \<Rightarrow> ComputationNodeBasePtr list \<Rightarrow> 'e outcome" where
  "AttachInputs s this inputs =
     (if (case expectedNumInputs (nodes s this) of
            Some N \<Rightarrow> N \<noteq> length inputs
          | None \<Rightarrow> False)
      then Inl (RuntimeError, s)
      else AttachInputs_loop
             (modify_node s this (\<lambda>n. n\<lparr>m_inputs := resize_inputs (m_inputs n) (length inputs)\<rparr>))
             this inputs 0)"

section \<open>Matrix pool hooks\<close>

definition ReleaseMatrixToPool :: "MatrixPtr \<Rightarrow> MatrixPool \<Rightarrow> error + MatrixPool" where
  "ReleaseMatrixToPool matrixPtr matrixPool =
     (case matrixPtr of
        None \<Rightarrow> Inl AssertionFailed
      | Some p \<Rightarrow> Inr (Release matrixPool p))"

definition ReleaseMatricesAfterForwardProp :: "'e state \<Rightarrow> nat \<Rightarrow> MatrixPool \<Rightarrow> error + MatrixPool" where
  "ReleaseMatricesAfterForwardProp s this matrixPool =
     (if \<not> IsOutputNeededDuringBackprop s (nodes s this) then
        (case m_value (nodes s this) of
           None \<Rightarrow> Inl NullDereference
         | Some p \<Rightarrow>
             if GetMatrixType (matrices s p) \<noteq> SPARSE \<and> isValueSharable (nodes s this)
             then ReleaseMatrixToPool (m_value (nodes s this)) matrixPool
             else Inr matrixPool)
      else Inr matrixPool)"

definition ReleaseMatricesAfterBackprop :: "'e state \<Rightarrow> nat \<Rightarrow> MatrixPool \<Rightarrow> error + MatrixPool" where
  "ReleaseMatricesAfterBackprop s this matrixPool =
     (if \<not> IsLeaf (nodes s this) \<and> \<not> RequiresPreCompute (nodes s this) then
        (case (case m_gradient (nodes s this) of
                 None \<Rightarrow> Inr matrixPool
               | Some g \<Rightarrow>
                   if GetMatrixType (matrices s g) \<noteq> SPARSE
                   then ReleaseMatrixToPool (m_gradient (nodes s this)) matrixPool
                   else Inr matrixPool) of
           Inl e \<Rightarrow> Inl e
         | Inr pool1 \<Rightarrow>
             if IsOutputNeededDuringBackprop s (nodes s this) then
               (case m_value (nodes s this) of
                  None \<Rightarrow> Inl NullDereference
                | Some p \<Rightarrow>
                    if GetMatrixType (matrices s p) \<noteq> SPARSE \<and> isValueSharable (nodes s this)
                    then ReleaseMatrixToPool (m_value (nodes s this)) pool1
                    else Inr pool1)
             else Inr pool1)
      else Inr matrixPool)"

section \<open>Lazy zeroing of gradients\<close>






section \<open>Backprop\<close>





section \<open>CopyTo and Duplicate\<close>

text \<open>\<open>enum CopyNodeFlags\<close>, used as a bit set (\<open>flags & copyNodeChildren\<close>).\<close>

type_synonym CopyNodeFlags = nat

definition copyNodeNull :: CopyNodeFlags where "copyNodeNull = 0"
definition copyNodeValue :: CopyNodeFlags where "copyNodeValue = 1"
definition copyNodeChildren :: CopyNodeFlags where "copyNodeChildren = 2"
definition copyNodeAll :: CopyNodeFlags where "copyNodeAll = 3"
definition copyNodeChildrenCrossNetwork :: CopyNodeFlags where "copyNodeChildrenCrossNetwork = 4"

text \<open>
  \<open>ComputationNodeBase::CopyTo(node, newName, flags)\<close>, with
  \<open>ComputationNetworkOwnedNodeState::CopyTo\<close> and \<open>TimeStamp::CopyTo\<close> inlined:
  it copies from \<open>this\<close> into \<open>node\<close>.
\<close>

definition CopyTo_Base :: "'e state \<Rightarrow> nat \<Rightarrow> ComputationNodeBasePtr \<Rightarrow> string \<Rightarrow> CopyNodeFlags \<Rightarrow> 'e outcome" where
  "CopyTo_Base s this nodeP newName flags =
     (case nodeP of
        None \<Rightarrow> Inl (NullDereference, s)
      | Some node \<Rightarrow>
          if OperationName (nodes s this) \<noteq> OperationName (nodes s node)
          then Inl (RuntimeError, s)
          else
            (let s1 = (if flags AND copyNodeChildren \<noteq> 0
                       then modify_node s node (\<lambda>n. n\<lparr>m_inputs := m_inputs (nodes s this)\<rparr>)
                       else s);
                 s2 = (if flags AND copyNodeValue \<noteq> 0
                       then modify_node s1 node
                              (\<lambda>n. n\<lparr>m_deviceId := m_deviceId (nodes s1 this),
                                     m_parameterUpdateRequired := m_parameterUpdateRequired (nodes s1 this),
                                     m_nodeName := newName,
                                     m_sampleLayout := m_sampleLayout (nodes s1 this),
                                     m_isPartOfLoop := m_isPartOfLoop (nodes s1 this),
                                     m_needsGradient := m_needsGradient (nodes s1 this),
                                     m_evalTimeStamp := m_evalTimeStamp (nodes s1 this)\<rparr>)
                       else s1)
             in Inr s2))"

text \<open>\<open>ComputationNode<ElemType>::CopyTo(nodeP, newName, flags)\<close>.\<close>

definition CopyTo :: "'e state \<Rightarrow> nat \<Rightarrow> ComputationNodeBasePtr \<Rightarrow> string \<Rightarrow> CopyNodeFlags \<Rightarrow> 'e outcome" where
  "CopyTo s this nodeP newName flags =
     (case CopyTo_Base s this nodeP newName flags of
        Inl e \<Rightarrow> Inl e
      | Inr s1 \<Rightarrow>
          if flags AND copyNodeValue \<noteq> 0 then
            (case UpCast s1 (elemType (nodes s1 this)) nodeP of
               Inl e \<Rightarrow> Inl (e, s1)
             | Inr node \<Rightarrow>
                 (case (m_value (nodes s1 node), m_value (nodes s1 this)) of
                    (Some dst, Some src) \<Rightarrow>
                      (let s2 = modify_matrix s1 dst (\<lambda>m. matrices s1 src)
                       in case m_gradient (nodes s2 this) of
                            Some gsrc \<Rightarrow>
                              (case m_gradient (nodes s2 node) of
                                 Some gdst \<Rightarrow> Inr (modify_matrix s2 gdst (\<lambda>m. matrices s2 gsrc))
                               | None \<Rightarrow> Inl (NullDereference, s2))
                          | None \<Rightarrow> Inr (modify_node s2 node (\<lambda>n. n\<lparr>m_gradient := None\<rparr>)))
                  | _ \<Rightarrow> Inl (NullDereference, s1)))
          else Inr s1)"

text \<open>Decimal output of an \<open>int64_t\<close> by \<open>operator<<\<close>.\<close>

function showNat :: "nat \<Rightarrow> string" where
  "showNat n =
     (if n < 10 then [''0123456789'' ! n]
      else showNat (n div 10) @ [''0123456789'' ! (n mod 10)])"
  by pat_completeness auto
termination
  by (relation "measure id") auto

definition showInt64 :: "64 word \<Rightarrow> string" where
  "showInt64 w = (if sint w < 0 then CHR ''-'' # showNat (nat (- sint w)) else showNat (nat (sint w)))"

text \<open>
  \<open>CreateUniqId\<close>: \<open>atomic_fetch_add\<close> returns the old counter and adds one.
  \<open>CreateUniqNodeName\<close> (without \<open>USE_GUID_AS_NAME\<close>) is \<open>AutoName\<close> followed by
  the id.
\<close>

definition CreateUniqId :: "'e state \<Rightarrow> 64 word \<times> 'e state" where
  "CreateUniqId s = (s_timeStampCounter s, s\<lparr>s_timeStampCounter := s_timeStampCounter s + 1\<rparr>)"

definition CreateUniqNodeName :: "'e state \<Rightarrow> string \<times> 'e state" where
  "CreateUniqNodeName s = (case CreateUniqId s of (uid, s1) \<Rightarrow> (''AutoName'' @ showInt64 uid, s1))"

text \<open>
  \<open>NewThis(deviceId, name)\<close> creates an object of the dynamic type of \<open>this\<close> by
  the constructor \<open>(deviceId, name)\<close>. What is modelled is the part of that
  constructor in this header: \<open>ComputationNetworkOwnedNodeState()\<close>, \<open>TimeStamp()\<close>,
  \<open>ComputationNodeBase(deviceId, name)\<close> and \<open>ComputationNode(deviceId, name)\<close>;
  the operators' own constructors are outside it. The new object takes the next free
  index.
\<close>

definition NewThis :: "'e state \<Rightarrow> nat \<Rightarrow> int \<Rightarrow> string \<Rightarrow> 'e state \<times> nat" where
  "NewThis s this deviceId name =
     (let stamp = s_timeStampCounter s;
          (nm, s1) = (if name = [] then CreateUniqNodeName s else (name, s));
          obj = \<lparr>m_needsGradient = False, m_valueSharable = True, m_isPartOfLoop = False,
                 m_evalTimeStamp = stamp, m_deviceId = deviceId, m_nodeName = nm,
                 m_inputs = [], m_sampleLayout = [], m_pMBLayout = None,
                 m_parameterUpdateRequired = False, m_gradientInitialized = False,
                 m_outputNeededDuringBackprop = True, m_value = None, m_gradient = None,
                 OperationName = OperationName (nodes s this),
                 RequiresPreCompute = RequiresPreCompute (nodes s this),
                 elemType = elemType (nodes s this),
                 expectedNumInputs = expectedNumInputs (nodes s this)\<rparr>
      in (s1\<lparr>nodes := (nodes s1)(numNodes s1 := obj), numNodes := Suc (numNodes s1)\<rparr>, numNodes s1))"

text \<open>
  \<open>Duplicate(newName, flags)\<close>. The source calls \<open>node->CopyTo(shared_from_this(),
  newName, flags)\<close>: the receiver is the new node and the argument is \<open>this\<close>.
\<close>

definition Duplicate :: "'e state \<Rightarrow> nat \<Rightarrow> string \<Rightarrow> CopyNodeFlags \<Rightarrow> (error \<times> 'e state) + ('e state \<times> nat)" where
  "Duplicate s this newName flags =
     (let name = (if newName = [] then NodeName (nodes s this) else newName)
      in case NewThis s this (m_deviceId (nodes s this)) name of
           (s1, node) \<Rightarrow>
             (case CopyTo s1 node (Some this) newName flags of
                Inl e \<Rightarrow> Inl e
              | Inr s2 \<Rightarrow> Inr (s2, node)))"

section \<open>EnumerateNodes\<close>

text \<open>
  \<open>EnumerateNodesRec(visited, result, skipPairNetwork)\<close> and its loop over
  \<open>m_inputs\<close>. A \<open>shared_ptr\<close> never dangles; an index at or beyond \<open>numNodes\<close>
  names no object, and the model leaves the traversal state as it is there.
\<close>

function EnumerateNodesRec :: "'e state \<Rightarrow> bool \<Rightarrow> nat \<Rightarrow> nat set \<times> nat list \<Rightarrow> nat set \<times> nat list"
  and EnumerateNodesRec_inputs :: "'e state \<Rightarrow> bool \<Rightarrow> ComputationNodeBasePtr list \<Rightarrow> nat set \<times> nat list \<Rightarrow> nat set \<times> nat list"
where
  "EnumerateNodesRec s skipPairNetwork this (visited, result) =
     (if this \<notin> visited \<and> this < numNodes s then
        (let st1 = (insert this visited, result);
             st2 = (if OperationName (nodes s this) \<noteq> ''PairNetwork'' \<or> \<not> skipPairNetwork
                    then EnumerateNodesRec_inputs s skipPairNetwork (m_inputs (nodes s this)) st1
                    else st1)
         in (fst st2, snd st2 @ [this]))
      else (visited, result))"
| "EnumerateNodesRec_inputs s skipPairNetwork [] st = st"
| "EnumerateNodesRec_inputs s skipPairNetwork (None # rest) st =
     EnumerateNodesRec_inputs s skipPairNetwork rest st"
| "EnumerateNodesRec_inputs s skipPairNetwork (Some c # rest) st =
     EnumerateNodesRec_inputs s skipPairNetwork rest (EnumerateNodesRec s skipPairNetwork c st)"
  by pat_completeness auto

fun EnumerateNodes_roots :: "'e state \<Rightarrow> bool \<Rightarrow> ComputationNodeBasePtr list \<Rightarrow> nat set \<times> nat list \<Rightarrow> error + nat set \<times> nat list" where
  "EnumerateNodes_roots s skipPairNetwork [] st = Inr st"
| "EnumerateNodes_roots s skipPairNetwork (None # rest) st = Inl NullDereference"
| "EnumerateNodes_roots s skipPairNetwork (Some root # rest) st =
     EnumerateNodes_roots s skipPairNetwork rest (EnumerateNodesRec s skipPairNetwork root st)"

definition EnumerateNodes :: "'e state \<Rightarrow> ComputationNodeBasePtr list \<Rightarrow> bool \<Rightarrow> error + nat list" where
  "EnumerateNodes s allRoots skipPairNetwork =
     (case EnumerateNodes_roots s skipPairNetwork allRoots ({}, []) of
        Inl e \<Rightarrow> Inl e
      | Inr st \<Rightarrow> Inr (snd st))"

text \<open>
  The input graph: an edge from each allocated node to each of its non-null inputs, and
  the nodes reachable from a list of roots. Every pointer of a well-formed heap names an
  allocated object.
\<close>

definition inputEdges :: "'e state \<Rightarrow> (nat \<times> nat) set" where
  "inputEdges s = {(n, c). n < numNodes s \<and> Some c \<in> set (m_inputs (nodes s n))}"

definition reachableFrom :: "'e state \<Rightarrow> ComputationNodeBasePtr list \<Rightarrow> nat set" where
  "reachableFrom s allRoots = (inputEdges s)\<^sup>* `` {r. Some r \<in> set allRoots}"

definition acyclicFrom :: "'e state \<Rightarrow> ComputationNodeBasePtr list \<Rightarrow> bool" where
  "acyclicFrom s allRoots = (\<forall>n \<in> reachableFrom s allRoots. (n, n) \<notin> (inputEdges s)\<^sup>+)"

definition wellFormed :: "'e state \<Rightarrow> bool" where
  "wellFormed s = (\<forall>n < numNodes s. \<forall>c. Some c \<in> set (m_inputs (nodes s n)) \<longrightarrow> c < numNodes s)"

section \<open>The invariant of the traversal\<close>

text \<open>
  The inputs that \<open>EnumerateNodesRec\<close> steps through at a node, and the edges they
  give. Without \<open>skipPairNetwork\<close> these are all the inputs.
\<close>

definition traversedInputs :: "'e state \<Rightarrow> bool \<Rightarrow> nat \<Rightarrow> ComputationNodeBasePtr list" where
  "traversedInputs s skipPairNetwork n =
     (if OperationName (nodes s n) \<noteq> ''PairNetwork'' \<or> \<not> skipPairNetwork
      then m_inputs (nodes s n) else [])"

definition traversalEdges :: "'e state \<Rightarrow> bool \<Rightarrow> (nat \<times> nat) set" where
  "traversalEdges s skipPairNetwork =
     {(n, c). n < numNodes s \<and> Some c \<in> set (traversedInputs s skipPairNetwork n)}"

text \<open>
  The result list has no node twice, and every traversed input of a node of the list
  stands before the node.
\<close>

definition inputsFirst :: "'e state \<Rightarrow> bool \<Rightarrow> nat list \<Rightarrow> bool" where
  "inputsFirst s skipPairNetwork result =
     (distinct result \<and>
      (\<forall>i < length result. \<forall>c. Some c \<in> set (traversedInputs s skipPairNetwork (result ! i)) \<longrightarrow>
          c \<in> set (take i result)))"

text \<open>
  The state of the traversal is the pair of \<open>visited\<close> and \<open>result\<close>. The visited
  nodes that are not yet in the result are the ones whose call is still open. A call may
  start at a node from which no such node can be reached and no cycle either; it extends
  the result at its end by nodes that were not visited before.
\<close>

definition traversalInv :: "'e state \<Rightarrow> bool \<Rightarrow> nat set \<times> nat list \<Rightarrow> bool" where
  "traversalInv s skipPairNetwork st =
     (set (snd st) \<subseteq> fst st \<and> inputsFirst s skipPairNetwork (snd st))"

definition clearOfStack :: "'e state \<Rightarrow> bool \<Rightarrow> nat \<Rightarrow> nat set \<times> nat list \<Rightarrow> bool" where
  "clearOfStack s skipPairNetwork n st =
     (n < numNodes s \<and>
      (\<forall>m \<in> (traversalEdges s skipPairNetwork)\<^sup>* `` {n}. (m, m) \<notin> (traversalEdges s skipPairNetwork)\<^sup>+) \<and>
      (traversalEdges s skipPairNetwork)\<^sup>* `` {n} \<inter> (fst st - set (snd st)) = {})"

definition traversalStep :: "'e state \<Rightarrow> bool \<Rightarrow> nat set \<times> nat list \<Rightarrow> nat set \<times> nat list \<Rightarrow> bool" where
  "traversalStep s skipPairNetwork st st' =
     (\<exists>ext. st' = (fst st \<union> set ext, snd st @ ext) \<and> set ext \<inter> fst st = {} \<and>
            inputsFirst s skipPairNetwork (snd st'))"

section \<open>The conditions of the base Backprop\<close>



text \<open>Two states whose nodes agree on the fields that \<open>Backprop\<close> reads.\<close>

definition sameGraph :: "'e state \<Rightarrow> 'e state \<Rightarrow> bool" where
  "sameGraph s s' =
     (\<forall>c. m_needsGradient (nodes s' c) = m_needsGradient (nodes s c) \<and>
          m_isPartOfLoop (nodes s' c) = m_isPartOfLoop (nodes s c) \<and>
          m_inputs (nodes s' c) = m_inputs (nodes s c) \<and>
          elemType (nodes s' c) = elemType (nodes s c))"

section \<open>A small network for concrete instances\<close>

text \<open>
  Five nodes: the input \<open>features\<close> (0), the parameter \<open>W\<close> (1), \<open>sum = Plus(features, W)\<close>
  (2), \<open>out = ElementTimes(sum, W)\<close> (3), all of element type \<open>float\<close>, and one
  unconnected node of element type \<open>double\<close> (4).
\<close>

definition exampleLeaf :: node where
  "exampleLeaf =
     \<lparr>m_needsGradient = False, m_valueSharable = False, m_isPartOfLoop = False,
      m_evalTimeStamp = 5, m_deviceId = 0, m_nodeName = ''features'',
      m_inputs = [], m_sampleLayout = [3],
      m_pMBLayout = Some \<lparr>numTimeSteps = 2, numParallelSequences = 3\<rparr>,
      m_parameterUpdateRequired = False, m_gradientInitialized = False,
      m_outputNeededDuringBackprop = True, m_value = Some 0, m_gradient = None,
      OperationName = ''InputValue'', RequiresPreCompute = False,
      elemType = Float, expectedNumInputs = None\<rparr>"

definition exampleNodes :: "nat \<Rightarrow> node" where
  "exampleNodes i =
     (if i = 1 then
        exampleLeaf\<lparr>m_needsGradient := True, m_nodeName := ''W'', m_pMBLayout := None,
                     m_gradientInitialized := True, m_value := Some 1, m_gradient := Some 4,
                     OperationName := ''LearnableParameter''\<rparr>
      else if i = 2 then
        exampleLeaf\<lparr>m_needsGradient := True, m_valueSharable := True, m_nodeName := ''sum'',
                     m_inputs := [Some 0, Some 1], m_outputNeededDuringBackprop := False,
                     m_value := Some 2, m_gradient := Some 5,
                     OperationName := ''Plus'', expectedNumInputs := Some 2\<rparr>
      else if i = 3 then
        exampleLeaf\<lparr>m_needsGradient := True, m_valueSharable := True, m_evalTimeStamp := 7,
                     m_nodeName := ''out'', m_inputs := [Some 2, Some 1],
                     m_value := Some 3, m_gradient := Some 6,
                     OperationName := ''ElementTimes''\<rparr>
      else if i = 4 then
        exampleLeaf\<lparr>m_nodeName := ''other'', m_value := Some 7, elemType := Double\<rparr>
      else exampleLeaf)"

definition exampleMatrix :: "nat \<Rightarrow> int Matrix" where
  "exampleMatrix p =
     \<lparr>numRows = 1, numCols = 1, matrixType = (if p = 0 then SPARSE else DENSE),
      cells = (\<lambda>i j. 1)\<rparr>"

definition exampleState :: "int state" where
  "exampleState =
     \<lparr>nodes = exampleNodes, numNodes = 5, matrices = exampleMatrix,
      g_shareNodeValueMatrices = True, s_timeStampCounter = 8, backpropToCalls = []\<rparr>"

lemmas example_defs = exampleState_def exampleNodes_def exampleLeaf_def exampleMatrix_def




section \<open>Termination of the traversal\<close>

lemma EnumerateNodesRec_visited_grows:
  "EnumerateNodesRec_EnumerateNodesRec_inputs_dom (Inl (s, skip, this, st)) \<Longrightarrow>
     fst st \<subseteq> fst (EnumerateNodesRec s skip this st)"
  "EnumerateNodesRec_EnumerateNodesRec_inputs_dom (Inr (s, skip, ps, st)) \<Longrightarrow>
     fst st \<subseteq> fst (EnumerateNodesRec_inputs s skip ps st)"
proof (induction s skip this st and s skip ps st
       rule: EnumerateNodesRec_EnumerateNodesRec_inputs.pinduct)
  case (1 s skip this visited result)
  then show ?case
    by (auto simp: EnumerateNodesRec.psimps Let_def)
next
  case (2 s skip st)
  then show ?case by (simp add: EnumerateNodesRec_inputs.psimps)
next
  case (3 s skip rest st)
  then show ?case by (simp add: EnumerateNodesRec_inputs.psimps)
next
  case (4 s skip c rest st)
  then show ?case by (auto simp: EnumerateNodesRec_inputs.psimps)
qed

termination EnumerateNodesRec
proof (relation "inv_image (less_than <*lex*> less_than)
         (\<lambda>x. case x of
            Inl (s, skip, this, st) \<Rightarrow> (card ({..<numNodes s} - fst st), 0)
          | Inr (s, skip, ps, st) \<Rightarrow> (card ({..<numNodes s} - fst st), Suc (length ps)))", goal_cases)
  case 1
  then show ?case by (intro wf_inv_image wf_lex_prod wf_less_than)
next
  case (2 s skip this visited result)
  then have "this \<in> {..<numNodes s} - visited" by simp
  then have "card ({..<numNodes s} - visited - {this}) < card ({..<numNodes s} - visited)"
    by (intro card_Diff1_less) auto
  moreover have "{..<numNodes s} - insert this visited = {..<numNodes s} - visited - {this}"
    by auto
  ultimately show ?case using 2 by simp
next
  case (3 s skip rest st)
  then show ?case by simp
next
  case (4 s skip c rest st)
  then show ?case by simp
next
  case (5 s skip c rest st)
  have "card ({..<numNodes s} - fst (EnumerateNodesRec s skip c st)) \<le> card ({..<numNodes s} - fst st)"
    using EnumerateNodesRec_visited_grows(1)[OF 5] by (intro card_mono) auto
  then show ?case by auto
qed


section \<open>ReducesInTimeWrt\<close>

text \<open>
  C9. For every pair of nodes A and B, \<open>A.ReducesInTimeWrt(B)\<close> returns true if and
  only if A's effective sample-matrix column count is strictly smaller than B's, where the
  effective column count of a node is the column count of its minibatch layout when it
  carries one and 1 when it does not.
\<close>

theorem ReducesInTimeWrt_iff_fewer_columns:
  "ReducesInTimeWrt s a (Some b) =
     Inr (effectiveNumCols (nodes s a) < effectiveNumCols (nodes s b))"
  by (simp add: ReducesInTimeWrt_def effectiveNumCols_def GetSampleMatrixNumCols_def
        HasMBLayout_def split: option.splits)

text \<open>The parameter \<open>W\<close> (no layout, one column) against \<open>sum\<close> (2 x 3 columns).\<close>

theorem ReducesInTimeWrt_iff_fewer_columns_witness:
  "ReducesInTimeWrt exampleState 1 (Some 2) = Inr True"
  using ReducesInTimeWrt_iff_fewer_columns [of exampleState 1 2]
  by (simp add: example_defs effectiveNumCols_def HasMBLayout_def GetNumCols_def)

section \<open>The base validation check\<close>

lemma Validate_nullCheck_eq:
  "Validate_nullCheck ps = (if None \<in> set ps then Inl RuntimeError else Inr ())"
  by (induction ps rule: Validate_nullCheck.induct) auto

lemma Validate_emptyCheck_eq:
  "None \<notin> set ps \<Longrightarrow>
   Validate_emptyCheck s ps =
     (if \<exists>c. Some c \<in> set ps \<and> GetSampleMatrixNumRows (nodes s c) = 0
      then Inl RuntimeError else Inr ())"
  by (induction s ps rule: Validate_emptyCheck.induct) auto

text \<open>
  C7. The base \<open>Validate(isFinalValidationPass)\<close> raises an error if any entry of the
  input list is null (in either pass), and in the final pass also if any input's
  sample-matrix row count is zero; otherwise it completes without error, and it changes
  no node state.
\<close>

theorem Validate_base_check:
  "Validate s this isFinalValidationPass =
     (if None \<in> set (m_inputs (nodes s this)) \<or>
         (isFinalValidationPass \<and>
          (\<exists>c. Some c \<in> set (m_inputs (nodes s this)) \<and> GetSampleMatrixNumRows (nodes s c) = 0))
      then Inl (RuntimeError, s)
      else Inr s)"
  by (simp add: Validate_def Validate_nullCheck_eq Validate_emptyCheck_eq)

text \<open>\<open>sum\<close> passes the final check; with a null second input it fails the early one.\<close>

theorem Validate_base_check_witness:
  "Validate exampleState 2 True = Inr exampleState \<and>
   Validate (modify_node exampleState 2 (\<lambda>n. n\<lparr>m_inputs := [Some 0, None]\<rparr>)) 2 False =
     Inl (RuntimeError, modify_node exampleState 2 (\<lambda>n. n\<lparr>m_inputs := [Some 0, None]\<rparr>))"
  using Validate_base_check [of exampleState 2 True]
    Validate_base_check [of "modify_node exampleState 2 (\<lambda>n. n\<lparr>m_inputs := [Some 0, None]\<rparr>)" 2 False]
  by (simp add: example_defs modify_node_def GetSampleMatrixNumRows_def GetNumElements_def)

section \<open>Releasing buffers to the pool\<close>

text \<open>
  C10. When the global flag \<open>g_shareNodeValueMatrices\<close> is false,
  \<open>IsOutputNeededDuringBackprop()\<close> returns true whatever was set through
  \<open>SetOutputNeededDuringBackprop\<close>, and \<open>ReleaseMatricesAfterForwardProp\<close> releases
  nothing to the pool.
\<close>

theorem no_release_without_sharing:
  assumes "\<not> g_shareNodeValueMatrices s"
  shows "IsOutputNeededDuringBackprop s (SetOutputNeededDuringBackprop n f) \<and>
         ReleaseMatricesAfterForwardProp s this matrixPool = Inr matrixPool"
  using assms
  by (simp add: IsOutputNeededDuringBackprop_def ReleaseMatricesAfterForwardProp_def)

theorem no_release_without_sharing_witness:
  "\<not> g_shareNodeValueMatrices (exampleState\<lparr>g_shareNodeValueMatrices := False\<rparr>) \<and>
   IsOutputNeededDuringBackprop (exampleState\<lparr>g_shareNodeValueMatrices := False\<rparr>)
     (SetOutputNeededDuringBackprop (exampleNodes 2) False) \<and>
   ReleaseMatricesAfterForwardProp (exampleState\<lparr>g_shareNodeValueMatrices := False\<rparr>) 2 [] = Inr []"
  using no_release_without_sharing
    [of "exampleState\<lparr>g_shareNodeValueMatrices := False\<rparr>" "exampleNodes 2" False 2 "[]"]
  by simp

text \<open>
  C5. For a node with a value buffer \<open>p\<close>: \<open>ReleaseMatricesAfterForwardProp\<close> releases
  \<open>p\<close> to the pool if and only if the output is not needed during backprop, \<open>p\<close> is
  dense and the value is sharable. \<open>ReleaseMatricesAfterBackprop\<close>, for a node that is
  neither a leaf nor a precompute node, releases the gradient buffer when it is present
  and dense, and then also \<open>p\<close> when the output was needed during backprop, \<open>p\<close> is
  dense and the value is sharable; for a leaf or a precompute node it releases nothing.
\<close>

theorem release_hooks:
  assumes "m_value (nodes s this) = Some p"
  shows "ReleaseMatricesAfterForwardProp s this matrixPool =
           Inr (matrixPool @
                (if \<not> IsOutputNeededDuringBackprop s (nodes s this) \<and>
                    GetMatrixType (matrices s p) = DENSE \<and> isValueSharable (nodes s this)
                 then [p] else [])) \<and>
         ReleaseMatricesAfterBackprop s this matrixPool =
           Inr (matrixPool @
                (if \<not> IsLeaf (nodes s this) \<and> \<not> RequiresPreCompute (nodes s this) then
                   (case m_gradient (nodes s this) of
                      None \<Rightarrow> []
                    | Some g \<Rightarrow> if GetMatrixType (matrices s g) = DENSE then [g] else []) @
                   (if IsOutputNeededDuringBackprop s (nodes s this) \<and>
                       GetMatrixType (matrices s p) = DENSE \<and> isValueSharable (nodes s this)
                    then [p] else [])
                 else []))"
proof -
  have dense: "(t \<noteq> SPARSE) = (t = DENSE)" for t
    by (cases t) simp_all
  have fwd: "ReleaseMatricesAfterForwardProp s this matrixPool =
           Inr (matrixPool @
                (if \<not> IsOutputNeededDuringBackprop s (nodes s this) \<and>
                    GetMatrixType (matrices s p) = DENSE \<and> isValueSharable (nodes s this)
                 then [p] else []))"
    using assms
    by (simp add: ReleaseMatricesAfterForwardProp_def ReleaseMatrixToPool_def Release_def dense)
  have bwd: "ReleaseMatricesAfterBackprop s this matrixPool =
           Inr (matrixPool @
                (if \<not> IsLeaf (nodes s this) \<and> \<not> RequiresPreCompute (nodes s this) then
                   (case m_gradient (nodes s this) of
                      None \<Rightarrow> []
                    | Some g \<Rightarrow> if GetMatrixType (matrices s g) = DENSE then [g] else []) @
                   (if IsOutputNeededDuringBackprop s (nodes s this) \<and>
                       GetMatrixType (matrices s p) = DENSE \<and> isValueSharable (nodes s this)
                    then [p] else [])
                 else []))"
    using assms
    by (cases "m_gradient (nodes s this)")
       (auto simp: ReleaseMatricesAfterBackprop_def ReleaseMatrixToPool_def Release_def dense)
  from fwd bwd show ?thesis by (rule conjI)
qed

text \<open>
  \<open>sum\<close> is not needed during backprop, dense and sharable: its value buffer 2 goes to
  the pool after the forward pass, its gradient buffer 5 after backprop.
\<close>

theorem release_hooks_witness:
  "m_value (nodes exampleState 2) = Some 2 \<and>
   ReleaseMatricesAfterForwardProp exampleState 2 [] = Inr [2] \<and>
   ReleaseMatricesAfterBackprop exampleState 2 [] = Inr [5]"
proof -
  have v: "m_value (nodes exampleState 2) = Some 2"
    by (simp add: example_defs)
  from release_hooks [OF v, of "[]"] v show ?thesis
    by (simp add: example_defs IsOutputNeededDuringBackprop_def GetMatrixType_def
          isValueSharable_def IsLeaf_def GetNumInputs_def)
qed

section \<open>The recompute-skip test\<close>

lemma nonneg_stamps_fit:
  fixes a b :: "64 word"
  assumes "0 \<le> sint a" "0 \<le> sint b"
  shows "- (2 ^ 63) \<le> sint a - sint b \<and> sint a - sint b < 2 ^ 63"
proof -
  have "sint a < 2 ^ 63" "sint b < 2 ^ 63"
    using sint_lt [of a] sint_lt [of b] by simp_all
  with assms show ?thesis by simp
qed

lemma IsOutputOlderThanInputs_loop_eq:
  assumes "None \<notin> set ps"
    and "\<forall>c. Some c \<in> set ps \<longrightarrow>
           - (2 ^ 63) \<le> sint (m_evalTimeStamp n) - sint (m_evalTimeStamp (nodes s c)) \<and>
           sint (m_evalTimeStamp n) - sint (m_evalTimeStamp (nodes s c)) < 2 ^ 63"
  shows "IsOutputOlderThanInputs_loop s n ps =
           Inr (\<exists>c. Some c \<in> set ps \<and>
                    sint (m_evalTimeStamp n) \<le> sint (m_evalTimeStamp (nodes s c)))"
  using assms
proof (induction s n ps rule: IsOutputOlderThanInputs_loop.induct)
  case (1 s this)
  then show ?case by simp
next
  case (2 s this rest)
  then show ?case by simp
next
  case (3 s this c rest)
  from "3.prems"(2)
  have fit: "- (2 ^ 63) \<le> sint (m_evalTimeStamp this) - sint (m_evalTimeStamp (nodes s c))"
      "sint (m_evalTimeStamp this) - sint (m_evalTimeStamp (nodes s c)) < 2 ^ 63"
    by simp_all
  then have old: "IsOlderThan this (nodes s c) =
      Inr (sint (m_evalTimeStamp this) \<le> sint (m_evalTimeStamp (nodes s c)))"
    by (simp add: IsOlderThan_def GetEvalTimeStamp_def Let_def)
  show ?case
  proof (cases "sint (m_evalTimeStamp this) \<le> sint (m_evalTimeStamp (nodes s c))")
    case True
    then have "\<exists>d. Some d \<in> set (Some c # rest) \<and>
        sint (m_evalTimeStamp this) \<le> sint (m_evalTimeStamp (nodes s d))"
      by (intro exI [of _ c]) simp
    with True old show ?thesis by simp
  next
    case False
    from "3.prems" have "None \<notin> set rest"
      and "\<forall>d. Some d \<in> set rest \<longrightarrow>
           - (2 ^ 63) \<le> sint (m_evalTimeStamp this) - sint (m_evalTimeStamp (nodes s d)) \<and>
           sint (m_evalTimeStamp this) - sint (m_evalTimeStamp (nodes s d)) < 2 ^ 63"
      by simp_all
    with "3.IH" [OF old] False
    have ih: "IsOutputOlderThanInputs_loop s this rest =
        Inr (\<exists>d. Some d \<in> set rest \<and>
              sint (m_evalTimeStamp this) \<le> sint (m_evalTimeStamp (nodes s d)))"
      by simp
    have "(\<exists>d. Some d \<in> set (Some c # rest) \<and>
              sint (m_evalTimeStamp this) \<le> sint (m_evalTimeStamp (nodes s d))) =
          (\<exists>d. Some d \<in> set rest \<and>
              sint (m_evalTimeStamp this) \<le> sint (m_evalTimeStamp (nodes s d)))"
      using False by auto
    with ih old False show ?thesis by simp
  qed
qed

text \<open>
  C2, as the source has it. The claim says that \<open>IsOutputOlderThanInputs\<close> returns true
  if and only if some input's time stamp strictly exceeds the node's own, so that a tie
  skips recomputation. In the source a tie counts as older: here \<open>sum\<close> and both of its
  inputs carry the time stamp 5, no input's stamp exceeds the node's, and the test
  returns true.
\<close>

theorem IsOutputOlderThanInputs_tie_counterexample:
  "m_inputs (nodes exampleState 2) = [Some 0, Some 1] \<and>
   \<not> sint (m_evalTimeStamp (nodes exampleState 2)) < sint (m_evalTimeStamp (nodes exampleState 0)) \<and>
   \<not> sint (m_evalTimeStamp (nodes exampleState 2)) < sint (m_evalTimeStamp (nodes exampleState 1)) \<and>
   IsOutputOlderThanInputs exampleState 2 = Inr True"
  by (simp add: example_defs IsOutputOlderThanInputs_def IsOlderThan_def GetEvalTimeStamp_def)

text \<open>
  C2, amended. For every node whose inputs are all non-null and whose time stamp differs
  from each input's by an amount that fits into 64 bits (so that the subtraction does not
  overflow; non-negative time stamps always do), \<open>IsOutputOlderThanInputs\<close> returns
  true if and only if some input's time stamp is greater than or equal to the node's own.
  A tie counts as older, and recomputation is skipped only when the node's time stamp
  strictly exceeds every input's.
\<close>

theorem IsOutputOlderThanInputs_tie_is_older:
  assumes "None \<notin> set (m_inputs (nodes s this))"
  shows "((\<forall>c. Some c \<in> set (m_inputs (nodes s this)) \<longrightarrow>
             - (2 ^ 63) \<le> sint (m_evalTimeStamp (nodes s this)) - sint (m_evalTimeStamp (nodes s c)) \<and>
             sint (m_evalTimeStamp (nodes s this)) - sint (m_evalTimeStamp (nodes s c)) < 2 ^ 63) \<longrightarrow>
          IsOutputOlderThanInputs s this =
            Inr (\<exists>c. Some c \<in> set (m_inputs (nodes s this)) \<and>
                     sint (m_evalTimeStamp (nodes s this)) \<le> sint (m_evalTimeStamp (nodes s c)))) \<and>
         (0 \<le> sint (m_evalTimeStamp (nodes s this)) \<and>
          (\<forall>c. Some c \<in> set (m_inputs (nodes s this)) \<longrightarrow> 0 \<le> sint (m_evalTimeStamp (nodes s c))) \<longrightarrow>
          IsOutputOlderThanInputs s this =
            Inr (\<exists>c. Some c \<in> set (m_inputs (nodes s this)) \<and>
                     sint (m_evalTimeStamp (nodes s this)) \<le> sint (m_evalTimeStamp (nodes s c))))"
proof -
  have fits: "IsOutputOlderThanInputs s this =
            Inr (\<exists>c. Some c \<in> set (m_inputs (nodes s this)) \<and>
                     sint (m_evalTimeStamp (nodes s this)) \<le> sint (m_evalTimeStamp (nodes s c)))"
    if "\<forall>c. Some c \<in> set (m_inputs (nodes s this)) \<longrightarrow>
             - (2 ^ 63) \<le> sint (m_evalTimeStamp (nodes s this)) - sint (m_evalTimeStamp (nodes s c)) \<and>
             sint (m_evalTimeStamp (nodes s this)) - sint (m_evalTimeStamp (nodes s c)) < 2 ^ 63"
    unfolding IsOutputOlderThanInputs_def
    using assms that by (rule IsOutputOlderThanInputs_loop_eq)
  have nonneg: "IsOutputOlderThanInputs s this =
            Inr (\<exists>c. Some c \<in> set (m_inputs (nodes s this)) \<and>
                     sint (m_evalTimeStamp (nodes s this)) \<le> sint (m_evalTimeStamp (nodes s c)))"
    if pos: "0 \<le> sint (m_evalTimeStamp (nodes s this)) \<and>
          (\<forall>c. Some c \<in> set (m_inputs (nodes s this)) \<longrightarrow> 0 \<le> sint (m_evalTimeStamp (nodes s c)))"
  proof (rule fits, intro allI impI)
    fix c
    assume "Some c \<in> set (m_inputs (nodes s this))"
    with pos have "0 \<le> sint (m_evalTimeStamp (nodes s this))" "0 \<le> sint (m_evalTimeStamp (nodes s c))"
      by blast+
    then show "- (2 ^ 63) \<le> sint (m_evalTimeStamp (nodes s this)) - sint (m_evalTimeStamp (nodes s c)) \<and>
             sint (m_evalTimeStamp (nodes s this)) - sint (m_evalTimeStamp (nodes s c)) < 2 ^ 63"
      by (rule nonneg_stamps_fit)
  qed
  from fits nonneg show ?thesis
    by blast
qed

text \<open>
  \<open>out\<close> carries the time stamp 7, newer than its inputs' 5: nothing to recompute.
  \<open>sum\<close> carries 5 as its inputs do: the tie reports that it is older.
\<close>

theorem IsOutputOlderThanInputs_tie_is_older_witness:
  "None \<notin> set (m_inputs (nodes exampleState 3)) \<and>
   0 \<le> sint (m_evalTimeStamp (nodes exampleState 3)) \<and>
   IsOutputOlderThanInputs exampleState 3 = Inr False \<and>
   None \<notin> set (m_inputs (nodes exampleState 2)) \<and>
   sint (m_evalTimeStamp (nodes exampleState 2)) = sint (m_evalTimeStamp (nodes exampleState 0)) \<and>
   IsOutputOlderThanInputs exampleState 2 = Inr True"
proof -
  have nn: "None \<notin> set (m_inputs (nodes exampleState 3))"
    by (simp add: example_defs)
  have pos: "0 \<le> sint (m_evalTimeStamp (nodes exampleState 3)) \<and>
      (\<forall>c. Some c \<in> set (m_inputs (nodes exampleState 3)) \<longrightarrow>
           0 \<le> sint (m_evalTimeStamp (nodes exampleState c)))"
    by (auto simp: example_defs)
  have neg: "(\<exists>c. Some c \<in> set (m_inputs (nodes exampleState 3)) \<and>
            sint (m_evalTimeStamp (nodes exampleState 3)) \<le> sint (m_evalTimeStamp (nodes exampleState c))) = False"
    by (auto simp: example_defs)
  have r3: "IsOutputOlderThanInputs exampleState 3 = Inr False"
    using mp [OF conjunct2 [OF IsOutputOlderThanInputs_tie_is_older [OF nn]] pos]
    unfolding neg .
  have nn2: "None \<notin> set (m_inputs (nodes exampleState 2))"
    by (simp add: example_defs)
  have pos2: "0 \<le> sint (m_evalTimeStamp (nodes exampleState 2)) \<and>
      (\<forall>c. Some c \<in> set (m_inputs (nodes exampleState 2)) \<longrightarrow>
           0 \<le> sint (m_evalTimeStamp (nodes exampleState c)))"
    by (auto simp: example_defs)
  have tie: "sint (m_evalTimeStamp (nodes exampleState 2)) = sint (m_evalTimeStamp (nodes exampleState 0))"
    by (simp add: example_defs)
  have "\<exists>c. Some c \<in> set (m_inputs (nodes exampleState 2)) \<and>
            sint (m_evalTimeStamp (nodes exampleState 2)) \<le> sint (m_evalTimeStamp (nodes exampleState c))"
    by (rule exI [of _ 0]) (simp add: example_defs)
  then have pos': "(\<exists>c. Some c \<in> set (m_inputs (nodes exampleState 2)) \<and>
            sint (m_evalTimeStamp (nodes exampleState 2)) \<le> sint (m_evalTimeStamp (nodes exampleState c))) = True"
    by simp
  have r2: "IsOutputOlderThanInputs exampleState 2 = Inr True"
    using mp [OF conjunct2 [OF IsOutputOlderThanInputs_tie_is_older [OF nn2]] pos2]
    unfolding pos' .
  from nn pos r3 nn2 tie r2 show ?thesis
    by blast
qed


section \<open>AttachInputs\<close>

declare AttachInputs_loop.simps [simp del]

lemma take_Suc_update:
  assumes "i < length xs" "take i xs = take i ys" "length xs = length ys"
  shows "take (Suc i) (xs[i := ys ! i]) = take (Suc i) ys"
proof -
  have "take (Suc i) (xs[i := ys ! i]) = take i (xs[i := ys ! i]) @ [(xs[i := ys ! i]) ! i]"
    using assms(1) by (intro take_Suc_conv_app_nth) simp
  also have "\<dots> = take i xs @ [ys ! i]"
    using assms(1) by simp
  also have "\<dots> = take i ys @ [ys ! i]"
    using assms(2) by simp
  also have "\<dots> = take (Suc i) ys"
    using assms(1,3) by (simp add: take_Suc_conv_app_nth)
  finally show ?thesis .
qed

lemma modify_node_same_inputs:
  "m_inputs (nodes s this) = inputs \<Longrightarrow> modify_node s this (\<lambda>n. n\<lparr>m_inputs := inputs\<rparr>) = s"
  by (auto simp: modify_node_def)

lemma AttachInputs_loop_stores:
  assumes "length (m_inputs (nodes s this)) = length inputs"
    and "take i (m_inputs (nodes s this)) = take i inputs"
    and "elemType (nodes s this) = E"
    and "\<forall>c. Some c \<in> set inputs \<longrightarrow> elemType (nodes s c) = E"
  shows "AttachInputs_loop s this inputs i = Inr (modify_node s this (\<lambda>n. n\<lparr>m_inputs := inputs\<rparr>))"
  using assms
proof (induction s this inputs i rule: AttachInputs_loop.induct)
  case (1 s this inputs i)
  show ?case
  proof (cases "i < length (m_inputs (nodes s this))")
    case False
    with "1.prems"(1,2) have "m_inputs (nodes s this) = inputs" by simp
    with False show ?thesis
      by (subst AttachInputs_loop.simps) (simp add: modify_node_same_inputs)
  next
    case True
    let ?s1 = "modify_node s this (\<lambda>n. n\<lparr>m_inputs := (m_inputs n)[i := inputs ! i]\<rparr>)"
    have len: "length (m_inputs (nodes ?s1 this)) = length inputs"
      using "1.prems"(1) by (simp add: modify_node_def)
    have mi: "m_inputs (nodes ?s1 this) = (m_inputs (nodes s this))[i := inputs ! i]"
      by (simp add: modify_node_def)
    have tk: "take (Suc i) (m_inputs (nodes ?s1 this)) = take (Suc i) inputs"
      unfolding mi using True "1.prems"(2) "1.prems"(1) by (rule take_Suc_update)
    have tthis: "elemType (nodes ?s1 this) = E"
      using "1.prems"(3) by (simp add: modify_node_def)
    have tin: "\<forall>c. Some c \<in> set inputs \<longrightarrow> elemType (nodes ?s1 c) = E"
      using "1.prems"(3,4) by (simp add: modify_node_def)
    have fin: "modify_node ?s1 this (\<lambda>n. n\<lparr>m_inputs := inputs\<rparr>) =
               modify_node s this (\<lambda>n. n\<lparr>m_inputs := inputs\<rparr>)"
      by (simp add: modify_node_def)
    show ?thesis
    proof (cases "inputs ! i")
      case None
      have "AttachInputs_loop ?s1 this inputs (Suc i) =
              Inr (modify_node ?s1 this (\<lambda>n. n\<lparr>m_inputs := inputs\<rparr>))"
        using "1.IH"(1) [OF True None] len tk tthis tin
        unfolding None by blast
      with True None fin show ?thesis
        by (subst AttachInputs_loop.simps) simp
    next
      case (Some c)
      have cin: "Some c \<in> set inputs"
        using True "1.prems"(1) Some by (metis nth_mem)
      then have up: "UpCast s (elemType (nodes s this)) (Some c) = Inr c"
        using "1.prems"(3,4) by (simp add: UpCast_def)
      have "AttachInputs_loop ?s1 this inputs (Suc i) =
              Inr (modify_node ?s1 this (\<lambda>n. n\<lparr>m_inputs := inputs\<rparr>))"
        using "1.IH"(2) [OF True Some up] len tk tthis tin
        unfolding Some by blast
      with True Some up fin show ?thesis
        by (subst AttachInputs_loop.simps) simp
    qed
  qed
qed

lemma AttachInputs_loop_mismatch:
  assumes "length (m_inputs (nodes s this)) = length inputs"
    and "i \<le> j" and "j < length inputs" and "inputs ! j = Some c"
    and "elemType (nodes s c) \<noteq> elemType (nodes s this)"
  shows "\<exists>s'. AttachInputs_loop s this inputs i = Inl (InvalidArgument, s')"
  using assms
proof (induction s this inputs i rule: AttachInputs_loop.induct)
  case (1 s this inputs i)
  have True: "i < length (m_inputs (nodes s this))"
    using "1.prems" by simp
  let ?s1 = "\<lambda>v. modify_node s this (\<lambda>n. n\<lparr>m_inputs := (m_inputs n)[i := v]\<rparr>)"
  have len: "length (m_inputs (nodes (?s1 v) this)) = length inputs" for v
    using "1.prems"(1) by (simp add: modify_node_def)
  have ty: "elemType (nodes (?s1 v) c) \<noteq> elemType (nodes (?s1 v) this)" for v
    using "1.prems"(5) by (auto simp: modify_node_def)
  show ?case
  proof (cases "inputs ! i")
    case None
    with "1.prems" have "Suc i \<le> j" by (cases "i = j") auto
    then have "\<exists>s'. AttachInputs_loop (?s1 None) this inputs (Suc i) = Inl (InvalidArgument, s')"
      using "1.IH"(1) [OF True None] len ty "1.prems" by simp
    with True None show ?thesis
      by (subst AttachInputs_loop.simps) simp
  next
    case (Some d)
    show ?thesis
    proof (cases "elemType (nodes s d) = elemType (nodes s this)")
      case False
      then have "UpCast s (elemType (nodes s this)) (Some d) = Inl InvalidArgument"
        by (simp add: UpCast_def)
      with True Some show ?thesis
        by (subst AttachInputs_loop.simps) simp
    next
      case same: True
      then have up: "UpCast s (elemType (nodes s this)) (Some d) = Inr d"
        by (simp add: UpCast_def)
      from same "1.prems" Some have "i \<noteq> j" by auto
      with "1.prems" have "Suc i \<le> j" by simp
      then have "\<exists>s'. AttachInputs_loop (?s1 (Some d)) this inputs (Suc i) = Inl (InvalidArgument, s')"
        using "1.IH"(2) [OF True Some up] len ty "1.prems" by simp
      with True Some up show ?thesis
        by (subst AttachInputs_loop.simps) simp
    qed
  qed
qed

lemma AttachInputs_arity_ok:
  assumes "expectedNumInputs (nodes s this) = None \<or>
     expectedNumInputs (nodes s this) = Some (length inputs)"
  shows "AttachInputs s this inputs =
     AttachInputs_loop
       (modify_node s this (\<lambda>n. n\<lparr>m_inputs := resize_inputs (m_inputs n) (length inputs)\<rparr>))
       this inputs 0"
  using assms by (cases "expectedNumInputs (nodes s this)") (simp_all add: AttachInputs_def)

text \<open>
  C6, as the source has it. The claim says that \<open>AttachInputs\<close> stores exactly the
  supplied inputs whenever the arity check passes, and leaves the input list unchanged on
  error. Here \<open>out\<close> (no fixed arity, element type \<open>float\<close>, two inputs) is given one
  input of element type \<open>double\<close>: \<open>UpCast\<close> throws \<open>InvalidArgument\<close> after the
  input list was resized to one entry.
\<close>

theorem AttachInputs_element_type_counterexample:
  "expectedNumInputs (nodes exampleState 3) = None \<and>
   m_inputs (nodes exampleState 3) = [Some 2, Some 1] \<and>
   isl (AttachInputs exampleState 3 [Some 4]) \<and>
   fst (projl (AttachInputs exampleState 3 [Some 4])) = InvalidArgument \<and>
   m_inputs (nodes (snd (projl (AttachInputs exampleState 3 [Some 4]))) 3) = [Some 2]"
  by (simp add: AttachInputs_def AttachInputs_loop.simps UpCast_def resize_inputs_def
        modify_node_def example_defs)

text \<open>
  C6, amended. \<open>AttachInputs(inputs)\<close> raises a runtime error, leaving the state
  unchanged, whenever the node declares a fixed arity \<open>N\<close> through \<open>NumInputs<N>\<close>
  and the size of the supplied list differs from \<open>N\<close>. Otherwise, if every non-null
  supplied input has the element type of the node, it stores exactly the supplied inputs
  in order (null entries permitted); if some non-null supplied input has another element
  type, it raises \<open>InvalidArgument\<close>.
\<close>

theorem AttachInputs_arity_and_element_type:
  "(\<forall>N. expectedNumInputs (nodes s this) = Some N \<and> N \<noteq> length inputs \<longrightarrow>
        AttachInputs s this inputs = Inl (RuntimeError, s)) \<and>
   ((expectedNumInputs (nodes s this) = None \<or>
     expectedNumInputs (nodes s this) = Some (length inputs)) \<longrightarrow>
      ((\<forall>c. Some c \<in> set inputs \<longrightarrow> elemType (nodes s c) = elemType (nodes s this)) \<longrightarrow>
         AttachInputs s this inputs = Inr (modify_node s this (\<lambda>n. n\<lparr>m_inputs := inputs\<rparr>))) \<and>
      ((\<exists>c. Some c \<in> set inputs \<and> elemType (nodes s c) \<noteq> elemType (nodes s this)) \<longrightarrow>
         (\<exists>s'. AttachInputs s this inputs = Inl (InvalidArgument, s'))))"
proof -
  let ?s0 = "modify_node s this (\<lambda>n. n\<lparr>m_inputs := resize_inputs (m_inputs n) (length inputs)\<rparr>)"
  have len: "length (m_inputs (nodes ?s0 this)) = length inputs"
    by (simp add: modify_node_def resize_inputs_def)
  have arity: "AttachInputs s this inputs = Inl (RuntimeError, s)"
    if "expectedNumInputs (nodes s this) = Some N \<and> N \<noteq> length inputs" for N
    using that by (simp add: AttachInputs_def)
  have stores: "AttachInputs s this inputs = Inr (modify_node s this (\<lambda>n. n\<lparr>m_inputs := inputs\<rparr>))"
    if ar: "expectedNumInputs (nodes s this) = None \<or>
            expectedNumInputs (nodes s this) = Some (length inputs)"
      and ty: "\<forall>c. Some c \<in> set inputs \<longrightarrow> elemType (nodes s c) = elemType (nodes s this)"
  proof -
    have "elemType (nodes ?s0 this) = elemType (nodes s this)"
      by (simp add: modify_node_def)
    moreover have "\<forall>c. Some c \<in> set inputs \<longrightarrow> elemType (nodes ?s0 c) = elemType (nodes s this)"
    proof (intro allI impI)
      fix c
      assume "Some c \<in> set inputs"
      with ty have "elemType (nodes s c) = elemType (nodes s this)"
        by blast
      then show "elemType (nodes ?s0 c) = elemType (nodes s this)"
        by (simp add: modify_node_def)
    qed
    ultimately have "AttachInputs_loop ?s0 this inputs 0 =
        Inr (modify_node ?s0 this (\<lambda>n. n\<lparr>m_inputs := inputs\<rparr>))"
      using len by (intro AttachInputs_loop_stores [where E = "elemType (nodes s this)"]) simp_all
    moreover have "modify_node ?s0 this (\<lambda>n. n\<lparr>m_inputs := inputs\<rparr>) =
        modify_node s this (\<lambda>n. n\<lparr>m_inputs := inputs\<rparr>)"
      by (simp add: modify_node_def)
    ultimately show ?thesis
      using AttachInputs_arity_ok [OF ar] by simp
  qed
  have mismatch: "\<exists>s'. AttachInputs s this inputs = Inl (InvalidArgument, s')"
    if ar: "expectedNumInputs (nodes s this) = None \<or>
            expectedNumInputs (nodes s this) = Some (length inputs)"
      and ex: "\<exists>c. Some c \<in> set inputs \<and> elemType (nodes s c) \<noteq> elemType (nodes s this)"
  proof -
    from ex obtain c j where j: "j < length inputs" "inputs ! j = Some c"
      and ne: "elemType (nodes s c) \<noteq> elemType (nodes s this)"
      by (auto simp: in_set_conv_nth)
    from ne have "elemType (nodes ?s0 c) \<noteq> elemType (nodes ?s0 this)"
      by (auto simp: modify_node_def)
    with len j have "\<exists>s'. AttachInputs_loop ?s0 this inputs 0 = Inl (InvalidArgument, s')"
      by (intro AttachInputs_loop_mismatch [where j = j and c = c]) simp_all
    then show ?thesis
      using AttachInputs_arity_ok [OF ar] by simp
  qed
  from arity stores mismatch show ?thesis
    by blast
qed

text \<open>
  \<open>sum\<close> expects two inputs: one input is refused, \<open>(W, null)\<close> is stored, and
  \<open>(W, other)\<close> is refused for the element type of \<open>other\<close>.
\<close>

theorem AttachInputs_arity_and_element_type_witness:
  "expectedNumInputs (nodes exampleState 2) = Some 2 \<and>
   AttachInputs exampleState 2 [Some 1] = Inl (RuntimeError, exampleState) \<and>
   AttachInputs exampleState 2 [Some 1, None] =
     Inr (modify_node exampleState 2 (\<lambda>n. n\<lparr>m_inputs := [Some 1, None]\<rparr>)) \<and>
   (\<exists>s'. AttachInputs exampleState 2 [Some 1, Some 4] = Inl (InvalidArgument, s'))"
proof -
  have e: "expectedNumInputs (nodes exampleState 2) = Some 2"
    by (simp add: example_defs)
  have a: "AttachInputs exampleState 2 [Some 1] = Inl (RuntimeError, exampleState)"
    using conjunct1 [OF AttachInputs_arity_and_element_type [of exampleState 2 "[Some 1]"]] e
    by simp
  have ok: "\<forall>c. Some c \<in> set [Some 1, None] \<longrightarrow>
      elemType (nodes exampleState c) = elemType (nodes exampleState 2)"
    by (simp add: example_defs)
  have b: "AttachInputs exampleState 2 [Some 1, None] =
     Inr (modify_node exampleState 2 (\<lambda>n. n\<lparr>m_inputs := [Some 1, None]\<rparr>))"
    using conjunct2 [OF AttachInputs_arity_and_element_type [of exampleState 2 "[Some 1, None]"]] e ok
    by simp
  have bad: "\<exists>c. Some c \<in> set [Some 1, Some 4] \<and>
      elemType (nodes exampleState c) \<noteq> elemType (nodes exampleState 2)"
    by (rule exI [of _ 4]) (simp add: example_defs)
  have c: "\<exists>s'. AttachInputs exampleState 2 [Some 1, Some 4] = Inl (InvalidArgument, s')"
    using conjunct2 [OF AttachInputs_arity_and_element_type [of exampleState 2 "[Some 1, Some 4]"]] e bad
    by simp
  from e a b c show ?thesis by blast
qed

section \<open>Lazy zeroing of gradients\<close>









section \<open>Backprop\<close>


lemma sameGraph_refl: "sameGraph s s"
  by (simp add: sameGraph_def)













section \<open>Duplicate\<close>

text \<open>
  C8. \<open>Duplicate(newName, flags)\<close> is to return a copy of the node and leave the
  original as it is. The source calls \<open>CopyTo\<close> on the new node with the original as
  its target. For \<open>sum\<close> with \<open>copyNodeChildren\<close>: the new node 5 has no inputs and
  the inputs of \<open>sum\<close> are gone. With \<open>copyNodeValue\<close>: \<open>sum\<close> is renamed and
  loses its sample layout, and the copy of the value buffer dereferences the null buffer
  of the new node.
\<close>

theorem Duplicate_overwrites_original:
  "m_inputs (nodes exampleState 2) = [Some 0, Some 1] \<and>
   \<not> isl (Duplicate exampleState 2 ''copy'' copyNodeChildren) \<and>
   snd (projr (Duplicate exampleState 2 ''copy'' copyNodeChildren)) = 5 \<and>
   m_inputs (nodes (fst (projr (Duplicate exampleState 2 ''copy'' copyNodeChildren))) 5) = [] \<and>
   m_inputs (nodes (fst (projr (Duplicate exampleState 2 ''copy'' copyNodeChildren))) 2) = [] \<and>
   isl (Duplicate exampleState 2 ''copy'' copyNodeValue) \<and>
   m_nodeName (nodes (snd (projl (Duplicate exampleState 2 ''copy'' copyNodeValue))) 2) = ''copy'' \<and>
   m_sampleLayout (nodes (snd (projl (Duplicate exampleState 2 ''copy'' copyNodeValue))) 2) = []"
  by (simp add: Duplicate_def NewThis_def CopyTo_def CopyTo_Base_def UpCast_def NodeName_def
        copyNodeChildren_def copyNodeValue_def modify_node_def Let_def example_defs)


section \<open>EnumerateNodes\<close>

declare EnumerateNodesRec.simps [simp del]

lemma traversalStep_refl:
  "inputsFirst s skip (snd st) \<Longrightarrow> traversalStep s skip st st"
  unfolding traversalStep_def by (intro exI [of _ "[]"]) simp

lemma traversalStep_trans:
  assumes "traversalStep s skip a b" "traversalStep s skip b c"
  shows "traversalStep s skip a c"
proof -
  from assms(1) obtain e1 where b: "b = (fst a \<union> set e1, snd a @ e1)" and d1: "set e1 \<inter> fst a = {}"
    unfolding traversalStep_def by blast
  from assms(2) obtain e2 where c: "c = (fst b \<union> set e2, snd b @ e2)" and d2: "set e2 \<inter> fst b = {}"
    and f: "inputsFirst s skip (snd c)"
    unfolding traversalStep_def by blast
  have "c = (fst a \<union> set (e1 @ e2), snd a @ (e1 @ e2))"
    using b c by auto
  moreover have "set (e1 @ e2) \<inter> fst a = {}"
    using b d1 d2 by auto
  ultimately show ?thesis
    unfolding traversalStep_def using f by blast
qed

lemma traversalStep_inv:
  assumes "traversalStep s skip st st'" "traversalInv s skip st"
  shows "traversalInv s skip st'"
proof -
  from assms(1) obtain ext where "st' = (fst st \<union> set ext, snd st @ ext)"
    and "inputsFirst s skip (snd st')"
    unfolding traversalStep_def by blast
  with assms(2) show ?thesis
    unfolding traversalInv_def by auto
qed

lemma traversalStep_mono:
  assumes "traversalStep s skip st st'"
  shows "set (snd st) \<subseteq> set (snd st')"
  using assms unfolding traversalStep_def by auto

lemma clearOfStack_step:
  assumes "clearOfStack s skip c st" "traversalStep s skip st st'"
  shows "clearOfStack s skip c st'"
proof -
  from assms(2) obtain ext where "st' = (fst st \<union> set ext, snd st @ ext)"
    unfolding traversalStep_def by blast
  then have "fst st' - set (snd st') \<subseteq> fst st - set (snd st)"
    by auto
  with assms(1) show ?thesis
    unfolding clearOfStack_def by blast
qed

lemma clearOfStack_visited:
  assumes "clearOfStack s skip this st" "this \<in> fst st"
  shows "this \<in> set (snd st)"
proof -
  have "this \<in> (traversalEdges s skip)\<^sup>* `` {this}" by blast
  with assms show ?thesis
    unfolding clearOfStack_def by blast
qed

lemma clearOfStack_child:
  assumes ok: "clearOfStack s skip this (V, R)" and new: "this \<notin> V" and sub: "set R \<subseteq> V"
    and wf: "wellFormed s" and c: "Some c \<in> set (traversedInputs s skip this)"
  shows "clearOfStack s skip c (insert this V, R)"
proof -
  let ?E = "traversalEdges s skip"
  from ok have lt: "this < numNodes s"
    and acyc: "\<forall>m \<in> ?E\<^sup>* `` {this}. (m, m) \<notin> ?E\<^sup>+"
    and st: "?E\<^sup>* `` {this} \<inter> (V - set R) = {}"
    unfolding clearOfStack_def by simp_all
  from c have cin: "Some c \<in> set (m_inputs (nodes s this))"
    unfolding traversedInputs_def by (simp split: if_splits)
  with wf lt have clt: "c < numNodes s"
    unfolding wellFormed_def by blast
  from lt c have edge: "(this, c) \<in> ?E"
    unfolding traversalEdges_def by simp
  then have reach: "?E\<^sup>* `` {c} \<subseteq> ?E\<^sup>* `` {this}"
    by (auto intro: converse_rtrancl_into_rtrancl)
  have notback: "this \<notin> ?E\<^sup>* `` {c}"
  proof
    assume "this \<in> ?E\<^sup>* `` {c}"
    then have "(c, this) \<in> ?E\<^sup>*" by simp
    with edge have "(this, this) \<in> ?E\<^sup>+" by (rule rtrancl_into_trancl2)
    moreover have "this \<in> ?E\<^sup>* `` {this}" by blast
    ultimately show False using acyc by blast
  qed
  have "?E\<^sup>* `` {c} \<inter> (insert this V - set R) = {}"
    using reach st notback by blast
  moreover have "\<forall>m \<in> ?E\<^sup>* `` {c}. (m, m) \<notin> ?E\<^sup>+"
    using reach acyc by blast
  ultimately show ?thesis
    unfolding clearOfStack_def using clt by simp
qed

lemma inputsFirst_snoc:
  assumes f: "inputsFirst s skip xs" and new: "this \<notin> set xs"
    and ch: "\<forall>c. Some c \<in> set (traversedInputs s skip this) \<longrightarrow> c \<in> set xs"
  shows "inputsFirst s skip (xs @ [this])"
proof -
  have "c \<in> set (take i (xs @ [this]))"
    if i: "i < length (xs @ [this])" and c: "Some c \<in> set (traversedInputs s skip ((xs @ [this]) ! i))"
    for i c
  proof (cases "i < length xs")
    case True
    with c have "Some c \<in> set (traversedInputs s skip (xs ! i))"
      by (simp add: nth_append)
    with f True have "c \<in> set (take i xs)"
      unfolding inputsFirst_def by blast
    with True show ?thesis by simp
  next
    case False
    with i have eq: "i = length xs" by simp
    with c have "Some c \<in> set (traversedInputs s skip this)" by simp
    with ch have "c \<in> set xs" by blast
    with eq show ?thesis by simp
  qed
  moreover from f new have "distinct (xs @ [this])"
    unfolding inputsFirst_def by simp
  ultimately show ?thesis
    unfolding inputsFirst_def by blast
qed

lemma traversalStep_push:
  assumes step: "traversalStep s skip (insert this V, R) st2" and new: "this \<notin> V"
    and sub: "set R \<subseteq> V"
    and ch: "\<forall>c. Some c \<in> set (traversedInputs s skip this) \<longrightarrow> c \<in> set (snd st2)"
  shows "traversalStep s skip (V, R) (fst st2, snd st2 @ [this])"
proof -
  from step obtain ext where st2: "st2 = (insert this V \<union> set ext, R @ ext)"
    and dis: "set ext \<inter> insert this V = {}" and f: "inputsFirst s skip (snd st2)"
    unfolding traversalStep_def by auto
  have notin: "this \<notin> set (snd st2)"
    using st2 dis new sub by auto
  from inputsFirst_snoc [OF f notin ch]
  have f': "inputsFirst s skip (snd st2 @ [this])" .
  have "(fst st2, snd st2 @ [this]) = (V \<union> set (ext @ [this]), R @ (ext @ [this]))"
    using st2 by auto
  moreover have "set (ext @ [this]) \<inter> V = {}"
    using dis new by auto
  ultimately show ?thesis
    unfolding traversalStep_def using f' by (intro exI [of _ "ext @ [this]"]) simp
qed

lemma EnumerateNodesRec_visited:
  "this \<in> visited \<or> \<not> this < numNodes s \<Longrightarrow>
   EnumerateNodesRec s skip this (visited, result) = (visited, result)"
  by (subst EnumerateNodesRec.simps) auto

lemma EnumerateNodesRec_new:
  "this \<notin> visited \<Longrightarrow> this < numNodes s \<Longrightarrow>
   EnumerateNodesRec s skip this (visited, result) =
     (let st2 = (if OperationName (nodes s this) \<noteq> ''PairNetwork'' \<or> \<not> skip
                 then EnumerateNodesRec_inputs s skip (m_inputs (nodes s this)) (insert this visited, result)
                 else (insert this visited, result))
      in (fst st2, snd st2 @ [this]))"
  by (subst EnumerateNodesRec.simps) (simp add: Let_def)

lemma traversal_correct:
  "wellFormed s \<Longrightarrow> traversalInv s skip st \<Longrightarrow> clearOfStack s skip this st \<Longrightarrow>
     traversalStep s skip st (EnumerateNodesRec s skip this st) \<and>
     this \<in> set (snd (EnumerateNodesRec s skip this st))"
  "wellFormed s \<Longrightarrow> traversalInv s skip st \<Longrightarrow>
     (\<forall>c. Some c \<in> set ps \<longrightarrow> clearOfStack s skip c st) \<Longrightarrow>
     traversalStep s skip st (EnumerateNodesRec_inputs s skip ps st) \<and>
     (\<forall>c. Some c \<in> set ps \<longrightarrow> c \<in> set (snd (EnumerateNodesRec_inputs s skip ps st)))"
proof (induction s skip this st and s skip ps st
       rule: EnumerateNodesRec_EnumerateNodesRec_inputs.induct)
  case (1 s skip this visited result)
  from "1.prems" have wf: "wellFormed s"
    and sub: "set result \<subseteq> visited" and f: "inputsFirst s skip result"
    and ok: "clearOfStack s skip this (visited, result)"
    by (simp_all add: traversalInv_def)
  from ok have lt: "this < numNodes s"
    by (simp add: clearOfStack_def)
  show ?case
  proof (cases "this \<in> visited")
    case True
    then have r: "EnumerateNodesRec s skip this (visited, result) = (visited, result)"
      by (simp add: EnumerateNodesRec_visited)
    from clearOfStack_visited [OF ok] True have "this \<in> set result" by simp
    moreover have "traversalStep s skip (visited, result) (visited, result)"
      using f by (intro traversalStep_refl) simp
    ultimately show ?thesis unfolding r by simp
  next
    case new: False
    show ?thesis
    proof (cases "OperationName (nodes s this) \<noteq> ''PairNetwork'' \<or> \<not> skip")
      case True
      let ?st1 = "(insert this visited, result)"
      let ?st2 = "EnumerateNodesRec_inputs s skip (m_inputs (nodes s this)) ?st1"
      have r: "EnumerateNodesRec s skip this (visited, result) = (fst ?st2, snd ?st2 @ [this])"
        using new lt True by (simp add: EnumerateNodesRec_new Let_def)
      have ti: "traversedInputs s skip this = m_inputs (nodes s this)"
        using True by (simp add: traversedInputs_def)
      have inv1: "traversalInv s skip ?st1"
        using sub f by (auto simp: traversalInv_def)
      have ch: "\<forall>c. Some c \<in> set (m_inputs (nodes s this)) \<longrightarrow> clearOfStack s skip c ?st1"
        using clearOfStack_child [OF ok new sub wf] ti by simp
      from new lt have cond: "this \<notin> visited \<and> this < numNodes s" by simp
      from "1.IH" [OF cond refl True wf inv1 ch]
      have step: "traversalStep s skip ?st1 ?st2"
        and all: "\<forall>c. Some c \<in> set (m_inputs (nodes s this)) \<longrightarrow> c \<in> set (snd ?st2)"
        by simp_all
      from all ti have all': "\<forall>c. Some c \<in> set (traversedInputs s skip this) \<longrightarrow> c \<in> set (snd ?st2)"
        by simp
      from traversalStep_push [OF step new sub all']
      show ?thesis unfolding r by simp
    next
      case False
      let ?st1 = "(insert this visited, result)"
      have r: "EnumerateNodesRec s skip this (visited, result) = (fst ?st1, snd ?st1 @ [this])"
        using new lt False by (simp add: EnumerateNodesRec_new Let_def)
      have ti: "traversedInputs s skip this = []"
        using False by (simp add: traversedInputs_def)
      have step: "traversalStep s skip ?st1 ?st1"
        using f by (intro traversalStep_refl) simp
      have all': "\<forall>c. Some c \<in> set (traversedInputs s skip this) \<longrightarrow> c \<in> set (snd ?st1)"
        using ti by simp
      from traversalStep_push [OF step new sub all']
      show ?thesis unfolding r by simp
    qed
  qed
next
  case (2 s skip st)
  then show ?case
    by (simp add: traversalStep_refl traversalInv_def)
next
  case (3 s skip rest st)
  from "3.prems" have "\<forall>c. Some c \<in> set rest \<longrightarrow> clearOfStack s skip c st"
    by simp
  from "3.IH" [OF "3.prems"(1,2) this] show ?case
    by simp
next
  case (4 s skip c rest st)
  let ?st1 = "EnumerateNodesRec s skip c st"
  from "4.prems" have okc: "clearOfStack s skip c st"
    and okrest: "\<forall>d. Some d \<in> set rest \<longrightarrow> clearOfStack s skip d st"
    by simp_all
  from "4.IH"(1) [OF "4.prems"(1,2) okc]
  have step1: "traversalStep s skip st ?st1" and cin: "c \<in> set (snd ?st1)"
    by simp_all
  have inv1: "traversalInv s skip ?st1"
    using traversalStep_inv [OF step1 "4.prems"(2)] .
  have okrest1: "\<forall>d. Some d \<in> set rest \<longrightarrow> clearOfStack s skip d ?st1"
    using okrest clearOfStack_step [OF _ step1] by blast
  from "4.IH"(2) [OF "4.prems"(1) inv1 okrest1]
  have step2: "traversalStep s skip ?st1 (EnumerateNodesRec_inputs s skip rest ?st1)"
    and rin: "\<forall>d. Some d \<in> set rest \<longrightarrow> d \<in> set (snd (EnumerateNodesRec_inputs s skip rest ?st1))"
    by simp_all
  have "traversalStep s skip st (EnumerateNodesRec_inputs s skip rest ?st1)"
    using step1 step2 by (rule traversalStep_trans)
  moreover have "c \<in> set (snd (EnumerateNodesRec_inputs s skip rest ?st1))"
    using cin traversalStep_mono [OF step2] by blast
  ultimately show ?case
    using rin by simp
qed

lemma EnumerateNodes_roots_eq:
  "None \<notin> set roots \<Longrightarrow>
   EnumerateNodes_roots s skip roots st = Inr (EnumerateNodesRec_inputs s skip roots st)"
  by (induction s skip roots st rule: EnumerateNodes_roots.induct) simp_all

lemma traversalEdges_False: "traversalEdges s False = inputEdges s"
  by (simp add: traversalEdges_def inputEdges_def traversedInputs_def)

text \<open>
  C1. For every list of (non-null) root nodes whose input graph is acyclic,
  \<open>EnumerateNodes(roots)\<close> returns a list that contains no node twice, and in which
  every non-null input of every node of the list stands at an earlier position than the
  node.
\<close>

theorem EnumerateNodes_inputs_first:
  assumes wf: "wellFormed s"
    and roots: "\<forall>r \<in> set allRoots. \<exists>n. r = Some n \<and> n < numNodes s"
    and acyc: "acyclicFrom s allRoots"
  shows "\<exists>ns. EnumerateNodes s allRoots False = Inr ns \<and> distinct ns \<and>
           (\<forall>i < length ns. \<forall>c. Some c \<in> set (m_inputs (nodes s (ns ! i))) \<longrightarrow>
               (\<exists>j < i. ns ! j = c))"
proof -
  let ?st = "EnumerateNodesRec_inputs s False allRoots ({}, [])"
  from roots have nn: "None \<notin> set allRoots" by auto
  then have run: "EnumerateNodes s allRoots False = Inr (snd ?st)"
    by (simp add: EnumerateNodes_def EnumerateNodes_roots_eq)
  have inv0: "traversalInv s False ({}, [])"
    by (simp add: traversalInv_def inputsFirst_def)
  have ok0: "\<forall>c. Some c \<in> set allRoots \<longrightarrow> clearOfStack s False c ({}, [])"
  proof (intro allI impI)
    fix c
    assume c: "Some c \<in> set allRoots"
    with roots have "c < numNodes s" by auto
    moreover have "(inputEdges s)\<^sup>* `` {c} \<subseteq> reachableFrom s allRoots"
      using c unfolding reachableFrom_def by blast
    with acyc have "\<forall>m \<in> (inputEdges s)\<^sup>* `` {c}. (m, m) \<notin> (inputEdges s)\<^sup>+"
      unfolding acyclicFrom_def by blast
    ultimately show "clearOfStack s False c ({}, [])"
      by (simp add: clearOfStack_def traversalEdges_False)
  qed
  from traversal_correct(2) [OF wf inv0 ok0]
  have "traversalStep s False ({}, []) ?st" by simp
  then have f: "inputsFirst s False (snd ?st)"
    unfolding traversalStep_def by blast
  have "\<exists>j < i. snd ?st ! j = c"
    if i: "i < length (snd ?st)" and c: "Some c \<in> set (m_inputs (nodes s (snd ?st ! i)))" for i c
  proof -
    from c have "Some c \<in> set (traversedInputs s False (snd ?st ! i))"
      by (simp add: traversedInputs_def)
    with f i have "c \<in> set (take i (snd ?st))"
      unfolding inputsFirst_def by blast
    then obtain j where "j < length (take i (snd ?st))" "take i (snd ?st) ! j = c"
      by (auto simp: in_set_conv_nth)
    with i show ?thesis
      by (intro exI [of _ j]) simp
  qed
  moreover from f have "distinct (snd ?st)"
    unfolding inputsFirst_def by simp
  ultimately show ?thesis
    using run by blast
qed

text \<open>
  From the roots \<open>out\<close> and \<open>sum\<close> of the example network the order is
  \<open>features\<close>, \<open>W\<close>, \<open>sum\<close>, \<open>out\<close>.
\<close>

lemma exampleState_edges_descend:
  "(a, b) \<in> inputEdges exampleState \<Longrightarrow> b < a"
  by (auto simp: inputEdges_def example_defs split: if_splits)

theorem EnumerateNodes_inputs_first_witness:
  "wellFormed exampleState \<and>
   acyclicFrom exampleState [Some 3, Some 2] \<and>
   EnumerateNodes exampleState [Some 3, Some 2] False = Inr [0, 1, 2, 3] \<and>
   distinct [0 :: nat, 1, 2, 3] \<and>
   m_inputs (nodes exampleState ([0, 1, 2, 3] ! 3)) = [Some 2, Some 1] \<and>
   (\<exists>j < 3. [0, 1, 2, 3] ! j = (2 :: nat)) \<and>
   (\<exists>j < 3. [0, 1, 2, 3] ! j = (1 :: nat))"
proof -
  have wf: "wellFormed exampleState"
    by (auto simp: wellFormed_def example_defs split: if_splits)
  have roots: "\<forall>r \<in> set [Some 3, Some 2]. \<exists>n. r = Some n \<and> n < numNodes exampleState"
    by (simp add: example_defs)
  have "acyclic (inputEdges exampleState)"
    using exampleState_edges_descend by (rule acyclicI_order)
  then have acyc: "acyclicFrom exampleState [Some 3, Some 2]"
    by (simp add: acyclicFrom_def acyclic_def)
  have run: "EnumerateNodes exampleState [Some 3, Some 2] False = Inr [0, 1, 2, 3]"
    by (simp add: EnumerateNodes_def EnumerateNodesRec.simps Let_def example_defs)
  have inp: "m_inputs (nodes exampleState ([0, 1, 2, 3] ! 3)) = [Some 2, Some 1]"
    by (simp add: example_defs)
  from EnumerateNodes_inputs_first [OF wf roots acyc]
  obtain ns where e: "EnumerateNodes exampleState [Some 3, Some 2] False = Inr ns"
    and d: "distinct ns"
    and f: "\<forall>i < length ns. \<forall>c. Some c \<in> set (m_inputs (nodes exampleState (ns ! i))) \<longrightarrow>
              (\<exists>j < i. ns ! j = c)"
    by blast
  from e run have ns: "ns = [0, 1, 2, 3]"
    by simp
  have "(3 :: nat) < length [0 :: nat, 1, 2, 3]"
    by simp
  with f [unfolded ns]
  have g: "\<forall>c. Some c \<in> set (m_inputs (nodes exampleState ([0, 1, 2, 3] ! 3))) \<longrightarrow>
              (\<exists>j < 3. [0, 1, 2, 3] ! j = c)"
    by blast
  have "Some 2 \<in> set (m_inputs (nodes exampleState ([0, 1, 2, 3] ! 3)))"
    and "Some 1 \<in> set (m_inputs (nodes exampleState ([0, 1, 2, 3] ! 3)))"
    unfolding inp by simp_all
  with g have "(\<exists>j < 3. [0, 1, 2, 3] ! j = (2 :: nat)) \<and> (\<exists>j < 3. [0, 1, 2, 3] ! j = (1 :: nat))"
    by blast
  with d [unfolded ns] wf acyc run inp show ?thesis
    by blast
qed

end
